theory Spec2Isabelle
  imports Complex_Main
begin

section \<open>Complex square matrices as a Banach algebra\<close>

text \<open>
  The notebooks compute with numpy arrays of complex numbers and with
  \<^verbatim>\<open>scipy.linalg.expm\<close>.  The embedding uses exact complex arithmetic: a square
  matrix indexed by a finite type, with the row-sum operator norm, so that the
  library's power series \<^term>\<open>exp\<close> is the matrix exponential.
\<close>

datatype 'n mat = Mat (entry: "'n \<Rightarrow> 'n \<Rightarrow> complex")

instantiation mat :: (finite) ring_1
begin

definition zero_mat :: "'a mat" where
  "zero_mat = Mat (\<lambda>i j. 0)"

definition one_mat :: "'a mat" where
  "one_mat = Mat (\<lambda>i j. if i = j then 1 else 0)"

definition plus_mat :: "'a mat \<Rightarrow> 'a mat \<Rightarrow> 'a mat" where
  "plus_mat A B = Mat (\<lambda>i j. entry A i j + entry B i j)"

definition uminus_mat :: "'a mat \<Rightarrow> 'a mat" where
  "uminus_mat A = Mat (\<lambda>i j. - entry A i j)"

definition minus_mat :: "'a mat \<Rightarrow> 'a mat \<Rightarrow> 'a mat" where
  "minus_mat A B = Mat (\<lambda>i j. entry A i j - entry B i j)"

definition times_mat :: "'a mat \<Rightarrow> 'a mat \<Rightarrow> 'a mat" where
  "times_mat A B = Mat (\<lambda>i j. \<Sum>k\<in>UNIV. entry A i k * entry B k j)"

instance
proof
  fix A B C :: "'a mat"
  show "A + B + C = A + (B + C)"
    by (simp add: plus_mat_def add.assoc)
  show "A + B = B + A"
    by (simp add: plus_mat_def add.commute)
  show "0 + A = A"
    by (simp add: plus_mat_def zero_mat_def)
  show "- A + A = 0"
    by (simp add: plus_mat_def uminus_mat_def zero_mat_def)
  show "A - B = A + - B"
    by (simp add: plus_mat_def uminus_mat_def minus_mat_def)
  show "A * B * C = A * (B * C)"
  proof -
    have "(\<Sum>k\<in>UNIV. (\<Sum>l\<in>UNIV. entry A i l * entry B l k) * entry C k j)
        = (\<Sum>l\<in>UNIV. entry A i l * (\<Sum>k\<in>UNIV. entry B l k * entry C k j))" for i j
    proof -
      have "(\<Sum>k\<in>UNIV. (\<Sum>l\<in>UNIV. entry A i l * entry B l k) * entry C k j)
          = (\<Sum>k\<in>UNIV. \<Sum>l\<in>UNIV. entry A i l * (entry B l k * entry C k j))"
        by (simp add: sum_distrib_right mult.assoc)
      also have "\<dots> = (\<Sum>l\<in>UNIV. \<Sum>k\<in>UNIV. entry A i l * (entry B l k * entry C k j))"
        by (rule sum.swap)
      finally show ?thesis
        by (simp add: sum_distrib_left)
    qed
    then show ?thesis
      by (simp add: times_mat_def)
  qed
  show "1 * A = A"
    by (simp add: times_mat_def one_mat_def if_distrib [of "\<lambda>x. x * _"] cong: if_cong)
  show "A * 1 = A"
    by (simp add: times_mat_def one_mat_def if_distrib [of "\<lambda>x. _ * x"] cong: if_cong)
  show "(A + B) * C = A * C + B * C"
    by (simp add: times_mat_def plus_mat_def distrib_right sum.distrib)
  show "A * (B + C) = A * B + A * C"
    by (simp add: times_mat_def plus_mat_def distrib_left sum.distrib)
  show "(0::'a mat) \<noteq> 1"
  proof
    assume "(0::'a mat) = 1"
    then have "entry (0::'a mat) undefined undefined = entry (1::'a mat) undefined undefined"
      by simp
    then show False
      by (simp add: zero_mat_def one_mat_def)
  qed
qed

end

lemma entry_zero [simp]: "entry 0 i j = 0"
  by (simp add: zero_mat_def)

lemma entry_one [simp]: "entry 1 i j = (if i = j then 1 else 0)"
  by (simp add: one_mat_def)

lemma entry_plus [simp]: "entry (A + B) i j = entry A i j + entry B i j"
  by (simp add: plus_mat_def)

lemma entry_uminus [simp]: "entry (- A) i j = - entry A i j"
  by (simp add: uminus_mat_def)

lemma entry_minus [simp]: "entry (A - B) i j = entry A i j - entry B i j"
  by (simp add: minus_mat_def)

lemma entry_times: "entry (A * B) i j = (\<Sum>k\<in>UNIV. entry A i k * entry B k j)"
  by (simp add: times_mat_def)

lemma mat_eqI: "(\<And>i j. entry A i j = entry B i j) \<Longrightarrow> A = B"
  by (rule mat.expand) (simp add: fun_eq_iff)

instantiation mat :: (finite) real_algebra_1
begin

definition scaleR_mat :: "real \<Rightarrow> 'a mat \<Rightarrow> 'a mat" where
  "scaleR_mat r A = Mat (\<lambda>i j. r *\<^sub>R entry A i j)"

instance
proof
  fix a b :: real and A B :: "'a mat"
  show "a *\<^sub>R (A + B) = a *\<^sub>R A + a *\<^sub>R B"
    by (simp add: scaleR_mat_def plus_mat_def scaleR_add_right)
  show "(a + b) *\<^sub>R A = a *\<^sub>R A + b *\<^sub>R A"
    by (simp add: scaleR_mat_def plus_mat_def scaleR_add_left)
  show "a *\<^sub>R b *\<^sub>R A = (a * b) *\<^sub>R A"
    by (simp add: scaleR_mat_def)
  show "1 *\<^sub>R A = A"
    by (simp add: scaleR_mat_def)
  show "a *\<^sub>R A * B = a *\<^sub>R (A * B)"
    by (simp add: scaleR_mat_def times_mat_def scaleR_sum_right)
  show "A * a *\<^sub>R B = a *\<^sub>R (A * B)"
    by (simp add: scaleR_mat_def times_mat_def scaleR_sum_right)
qed

end

lemma entry_scaleR [simp]: "entry (r *\<^sub>R A) i j = r *\<^sub>R entry A i j"
  by (simp add: scaleR_mat_def)

definition rowsum :: "('n::finite) mat \<Rightarrow> 'n \<Rightarrow> real" where
  "rowsum A i = (\<Sum>j\<in>UNIV. cmod (entry A i j))"

instantiation mat :: (finite) real_normed_algebra_1
begin

definition norm_mat :: "'a mat \<Rightarrow> real" where
  "norm_mat A = Max (range (rowsum A))"

definition sgn_mat :: "'a mat \<Rightarrow> 'a mat" where
  "sgn_mat A = A /\<^sub>R norm A"

definition dist_mat :: "'a mat \<Rightarrow> 'a mat \<Rightarrow> real" where
  "dist_mat A B = norm (A - B)"

definition uniformity_mat :: "('a mat \<times> 'a mat) filter" where
  "uniformity_mat = (INF e\<in>{0 <..}. principal {(x, y). dist x y < e})"

definition open_mat :: "'a mat set \<Rightarrow> bool" where
  "open_mat U \<longleftrightarrow> (\<forall>x\<in>U. eventually (\<lambda>(x', y). x' = x \<longrightarrow> y \<in> U) uniformity)"

instance
proof
  fix r :: real and A B :: "'a mat"
  have ge: "rowsum M i \<le> norm M" for M :: "'a mat" and i
    by (simp add: norm_mat_def)
  have le: "norm M \<le> c" if "\<And>i. rowsum M i \<le> c" for M :: "'a mat" and c
    using that by (simp add: norm_mat_def)
  have ex: "\<exists>i. norm M = rowsum M i" for M :: "'a mat"
  proof -
    have "Max (range (rowsum M)) \<in> range (rowsum M)"
      by (rule Max_in) simp_all
    then obtain i where "Max (range (rowsum M)) = rowsum M i"
      by (rule rangeE)
    then show ?thesis
      unfolding norm_mat_def by (rule exI)
  qed
  have nonneg: "0 \<le> rowsum M i" for M :: "'a mat" and i
    by (simp add: rowsum_def sum_nonneg)
  show "norm A = 0 \<longleftrightarrow> A = 0"
  proof
    assume z: "norm A = 0"
    show "A = 0"
    proof (rule mat_eqI)
      fix i j
      have "cmod (entry A i j) \<le> rowsum A i"
        unfolding rowsum_def by (rule member_le_sum) simp_all
      also have "\<dots> \<le> 0"
        using ge [of A i] z by simp
      finally show "entry A i j = entry 0 i j"
        by simp
    qed
  next
    assume "A = 0"
    then have "rowsum A = (\<lambda>i. 0)"
      by (simp add: rowsum_def fun_eq_iff)
    then show "norm A = 0"
      by (simp add: norm_mat_def image_constant_conv)
  qed
  show "norm (A + B) \<le> norm A + norm B"
  proof (rule le)
    fix i
    have "rowsum (A + B) i \<le> rowsum A i + rowsum B i"
      unfolding rowsum_def sum.distrib [symmetric]
      by (rule sum_mono) (simp add: norm_triangle_ineq)
    also have "\<dots> \<le> norm A + norm B"
      by (intro add_mono ge)
    finally show "rowsum (A + B) i \<le> norm A + norm B" .
  qed
  have sc: "rowsum (r *\<^sub>R A) i = \<bar>r\<bar> * rowsum A i" for i
    by (simp add: rowsum_def sum_distrib_left)
  show "norm (r *\<^sub>R A) = \<bar>r\<bar> * norm A"
  proof (rule antisym)
    show "norm (r *\<^sub>R A) \<le> \<bar>r\<bar> * norm A"
      by (rule le) (simp add: sc mult_left_mono ge)
    obtain i where i: "norm A = rowsum A i"
      using ex by blast
    have "\<bar>r\<bar> * norm A = rowsum (r *\<^sub>R A) i"
      by (simp add: sc i)
    also have "\<dots> \<le> norm (r *\<^sub>R A)"
      by (rule ge)
    finally show "\<bar>r\<bar> * norm A \<le> norm (r *\<^sub>R A)" .
  qed
  show "norm (A * B) \<le> norm A * norm B"
  proof (rule le)
    fix i
    have "rowsum (A * B) i \<le> (\<Sum>j\<in>UNIV. \<Sum>k\<in>UNIV. cmod (entry A i k) * cmod (entry B k j))"
      unfolding rowsum_def entry_times
      by (rule sum_mono, rule order_trans [OF norm_sum]) (simp add: norm_mult)
    also have "\<dots> = (\<Sum>k\<in>UNIV. cmod (entry A i k) * rowsum B k)"
      unfolding rowsum_def sum_distrib_left by (rule sum.swap)
    also have "\<dots> \<le> (\<Sum>k\<in>UNIV. cmod (entry A i k) * norm B)"
      by (rule sum_mono) (simp add: mult_left_mono ge)
    also have "\<dots> = rowsum A i * norm B"
      by (simp add: rowsum_def sum_distrib_right)
    also have "\<dots> \<le> norm A * norm B"
    proof (rule mult_right_mono [OF ge])
      show "0 \<le> norm B"
        using nonneg [of B undefined] ge [of B undefined] by simp
    qed
    finally show "rowsum (A * B) i \<le> norm A * norm B" .
  qed
  have "rowsum (1::'a mat) = (\<lambda>i. 1)"
  proof
    fix i :: 'a
    have "rowsum (1::'a mat) i = (\<Sum>j\<in>UNIV. if j = i then 1 else 0)"
      unfolding rowsum_def by (rule sum.cong) auto
    then show "rowsum (1::'a mat) i = 1"
      by simp
  qed
  then show "norm (1::'a mat) = 1"
    by (simp add: norm_mat_def image_constant_conv)
qed (rule sgn_mat_def dist_mat_def open_mat_def uniformity_mat_def)+

end

lemma rowsum_le_norm: "rowsum A i \<le> norm A"
  by (simp add: norm_mat_def)

lemma cmod_entry_le_norm: "cmod (entry A i j) \<le> norm A"
proof -
  have "cmod (entry A i j) \<le> rowsum A i"
    unfolding rowsum_def by (rule member_le_sum) simp_all
  then show ?thesis
    using rowsum_le_norm [of A i] by simp
qed

lemma norm_mat_le_sum: "norm A \<le> (\<Sum>i\<in>UNIV. \<Sum>j\<in>UNIV. cmod (entry A i j))"
proof -
  have "rowsum A i \<le> (\<Sum>i\<in>UNIV. rowsum A i)" for i
    by (rule member_le_sum) (simp_all add: rowsum_def sum_nonneg)
  then show ?thesis
    by (simp add: norm_mat_def rowsum_def)
qed

instance mat :: (finite) banach
proof
  fix X :: "nat \<Rightarrow> 'a mat"
  assume X: "Cauchy X"
  have cauchy_entry: "Cauchy (\<lambda>n. entry (X n) i j)" for i j
  proof (rule metric_CauchyI)
    fix e :: real
    assume "0 < e"
    with X obtain M where M: "\<forall>m\<ge>M. \<forall>n\<ge>M. dist (X m) (X n) < e"
      by (auto simp add: Cauchy_def)
    have "dist (entry (X m) i j) (entry (X n) i j) < e" if "M \<le> m" "M \<le> n" for m n
    proof -
      have "dist (entry (X m) i j) (entry (X n) i j) = cmod (entry (X m - X n) i j)"
        by (simp add: dist_norm)
      also have "\<dots> \<le> norm (X m - X n)"
        by (rule cmod_entry_le_norm)
      also have "\<dots> < e"
        using M that by (simp add: dist_norm)
      finally show ?thesis .
    qed
    then show "\<exists>M. \<forall>m\<ge>M. \<forall>n\<ge>M. dist (entry (X m) i j) (entry (X n) i j) < e"
      by blast
  qed
  define L where "L = Mat (\<lambda>i j. lim (\<lambda>n. entry (X n) i j))"
  have lim_entry: "(\<lambda>n. entry (X n) i j) \<longlonglongrightarrow> entry L i j" for i j
    using cauchy_entry [of i j]
    by (simp add: L_def Cauchy_convergent_iff convergent_LIMSEQ_iff)
  have "(\<lambda>n. cmod (entry (X n) i j - entry L i j)) \<longlonglongrightarrow> 0" for i j
    using lim_entry [of i j] by (simp add: LIM_zero_iff tendsto_norm_zero_iff)
  then have "(\<lambda>n. \<Sum>i\<in>UNIV. \<Sum>j\<in>UNIV. cmod (entry (X n) i j - entry L i j))
      \<longlonglongrightarrow> (\<Sum>i\<in>(UNIV::'a set). \<Sum>j\<in>(UNIV::'a set). 0)"
    by (intro tendsto_sum)
  then have bound: "(\<lambda>n. \<Sum>i\<in>UNIV. \<Sum>j\<in>UNIV. cmod (entry (X n) i j - entry L i j))
      \<longlonglongrightarrow> 0"
    by simp
  have "(\<lambda>n. X n - L) \<longlonglongrightarrow> 0"
  proof (rule tendsto_0_le [OF bound, where K = 1])
    show "\<forall>\<^sub>F n in sequentially. norm (X n - L)
        \<le> norm (\<Sum>i\<in>UNIV. \<Sum>j\<in>UNIV. cmod (entry (X n) i j - entry L i j)) * 1"
    proof (rule always_eventually, rule allI)
      fix n
      have "norm (X n - L) \<le> (\<Sum>i\<in>UNIV. \<Sum>j\<in>UNIV. cmod (entry (X n - L) i j))"
        by (rule norm_mat_le_sum)
      also have "\<dots> = norm (\<Sum>i\<in>UNIV. \<Sum>j\<in>UNIV. cmod (entry (X n) i j - entry L i j))"
        by (simp add: sum_nonneg)
      finally show "norm (X n - L)
          \<le> norm (\<Sum>i\<in>UNIV. \<Sum>j\<in>UNIV. cmod (entry (X n) i j - entry L i j)) * 1"
        by simp
    qed
  qed
  then have "X \<longlonglongrightarrow> L"
    by (simp add: LIM_zero_iff)
  then show "convergent X"
    by (rule convergentI)
qed

section \<open>Array operations used by the notebooks\<close>

text \<open>
  A column vector is a function from the index type to its complex components.
  The scalar broadcast \<^verbatim>\<open>c * A\<close>, \<^verbatim>\<open>A.conj().T\<close>, \<^verbatim>\<open>np.dot\<close> and \<^verbatim>\<open>np.kron\<close> are
  written out entry by entry.  \<^verbatim>\<open>np.kron\<close> of arrays with row indices \<open>i\<close> and \<open>k\<close>
  puts the product at row \<open>3 * i + k\<close>, which is the pair \<open>(i, k)\<close> here.
\<close>

type_synonym 'n cvec = "'n \<Rightarrow> complex"

definition cmul :: "complex \<Rightarrow> ('n::finite) mat \<Rightarrow> 'n mat" where
  "cmul c A = Mat (\<lambda>i j. c * entry A i j)"

definition dagger :: "('n::finite) mat \<Rightarrow> 'n mat" where
  "dagger A = Mat (\<lambda>i j. cnj (entry A j i))"

definition trace :: "('n::finite) mat \<Rightarrow> complex" where
  "trace A = (\<Sum>i\<in>UNIV. entry A i i)"

definition mat_vec :: "('n::finite) mat \<Rightarrow> 'n cvec \<Rightarrow> 'n cvec" where
  "mat_vec A v = (\<lambda>i. \<Sum>j\<in>UNIV. entry A i j * v j)"

definition cdot :: "('n::finite) cvec \<Rightarrow> 'n cvec \<Rightarrow> complex" where
  "cdot u v = (\<Sum>i\<in>UNIV. cnj (u i) * v i)"

definition vnorm :: "('n::finite) cvec \<Rightarrow> real" where
  "vnorm v = sqrt (\<Sum>i\<in>UNIV. (cmod (v i))\<^sup>2)"

definition kron_col_row :: "('n::finite) cvec \<Rightarrow> 'n cvec \<Rightarrow> 'n mat" where
  "kron_col_row u v = Mat (\<lambda>i j. u i * v j)"

definition kron_vec :: "'a cvec \<Rightarrow> 'b cvec \<Rightarrow> ('a \<times> 'b) cvec" where
  "kron_vec u v = (\<lambda>(i, k). u i * v k)"

definition kron_mat :: "('a::finite) mat \<Rightarrow> ('b::finite) mat \<Rightarrow> ('a \<times> 'b) mat" where
  "kron_mat A B = Mat (\<lambda>(i, k) (j, l). entry A i j * entry B k l)"

definition expm :: "('n::finite) mat \<Rightarrow> 'n mat" where
  "expm A = exp A"

definition hermitian :: "('n::finite) mat \<Rightarrow> bool" where
  "hermitian A \<longleftrightarrow> dagger A = A"

definition unitary :: "('n::finite) mat \<Rightarrow> bool" where
  "unitary U \<longleftrightarrow> U * dagger U = 1 \<and> dagger U * U = 1"

definition skew :: "('n::finite) mat \<Rightarrow> bool" where
  "skew A \<longleftrightarrow> dagger A = - A"

definition diag_mat :: "('n::finite) cvec \<Rightarrow> 'n mat" where
  "diag_mat d = Mat (\<lambda>i j. if i = j then d i else 0)"

definition diagonal :: "('n::finite) mat \<Rightarrow> bool" where
  "diagonal A \<longleftrightarrow> A = diag_mat (\<lambda>i. entry A i i)"


section \<open>Qutrit constants\<close>

datatype level = L0 | L1 | L2

lemma UNIV_level: "(UNIV :: level set) = {L0, L1, L2}"
  by (auto intro: level.exhaust)

instance level :: finite
proof
  show "finite (UNIV :: level set)"
    unfolding UNIV_level by (intro finite.insertI finite.emptyI)
qed

definition vec3 :: "complex \<Rightarrow> complex \<Rightarrow> complex \<Rightarrow> level cvec" where
  "vec3 a b c = (\<lambda>i. case i of L0 \<Rightarrow> a | L1 \<Rightarrow> b | L2 \<Rightarrow> c)"

definition q0 :: "level cvec" where
  "q0 = vec3 1 0 0"

definition q1 :: "level cvec" where
  "q1 = vec3 0 1 0"

definition q2 :: "level cvec" where
  "q2 = vec3 0 0 1"

definition gm1 :: "level mat" where
  "gm1 = kron_col_row q0 q1 + kron_col_row q1 q0"

definition gm2 :: "level mat" where
  "gm2 = cmul (- \<i>) (kron_col_row q0 q1 - kron_col_row q1 q0)"

definition gm3 :: "level mat" where
  "gm3 = kron_col_row q0 q0 - kron_col_row q1 q1"

definition gm4 :: "level mat" where
  "gm4 = kron_col_row q0 q2 + kron_col_row q2 q0"

definition gm5 :: "level mat" where
  "gm5 = cmul (- \<i>) (kron_col_row q0 q2 - kron_col_row q2 q0)"

definition gm6 :: "level mat" where
  "gm6 = kron_col_row q1 q2 + kron_col_row q2 q1"

definition gm7 :: "level mat" where
  "gm7 = cmul (- \<i>) (kron_col_row q1 q2 - kron_col_row q2 q1)"

definition gm8 :: "level mat" where
  "gm8 = cmul (complex_of_real (1 / sqrt 3))
     (kron_col_row q0 q0 + kron_col_row q1 q1 - cmul 2 (kron_col_row q2 q2))"

definition generators :: "level mat list" where
  "generators = [gm1, gm2, gm3, gm4, gm5, gm6, gm7, gm8]"

definition H :: "level mat" where
  "H = cmul (complex_of_real (1 / sqrt 3))
     (Mat (\<lambda>i j. case (i, j) of
        (L0, _) \<Rightarrow> 1
      | (_, L0) \<Rightarrow> 1
      | (L1, L1) \<Rightarrow> exp (2 * \<i> * complex_of_real pi / 3)
      | (L1, L2) \<Rightarrow> exp (- 2 * \<i> * complex_of_real pi / 3)
      | (L2, L1) \<Rightarrow> exp (- 2 * \<i> * complex_of_real pi / 3)
      | (L2, L2) \<Rightarrow> exp (2 * \<i> * complex_of_real pi / 3)))"

definition LZ2 :: "level mat" where
  "LZ2 = gm3 + cmul (complex_of_real (sqrt 3)) gm8"

definition LZZ2 :: "(level \<times> level) mat" where
  "LZZ2 = kron_mat LZ2 LZ2"


section \<open>Encoding\<close>

text \<open>
  A feature vector is a list of reals.  Reading \<^verbatim>\<open>vector[i]\<close> past the end of the
  array raises \<^verbatim>\<open>IndexError\<close>; the loop over \<^verbatim>\<open>range(4)\<close> stops there.  The three
  notebooks' \<^verbatim>\<open>encoding\<close> functions differ in the generator offset (\<^verbatim>\<open>generators[i]\<close> or
  \<^verbatim>\<open>generators[i+4]\<close>) and in the base vector (\<^verbatim>\<open>q0\<close> or \<^verbatim>\<open>np.dot(H, q0)\<close>):
  \<open>encoding_seed\<close> is the Seed notebook's (\<^verbatim>\<open>generators[i]\<close>, \<^verbatim>\<open>q0\<close>), \<open>encoding_iris\<close> the
  Iris and Glass notebooks' (\<^verbatim>\<open>generators[i]\<close>, \<^verbatim>\<open>np.dot(H, q0)\<close>), \<open>encoding_wine\<close> the
  Wine notebook's (\<^verbatim>\<open>generators[i+4]\<close>, \<^verbatim>\<open>q0\<close>).  The accumulator starts at the zero
  matrix, which is what adding a matrix to the initial \<^verbatim>\<open>sum = 0\<close> gives.
\<close>

datatype error = IndexError

fun encoding_loop :: "nat \<Rightarrow> real list \<Rightarrow> nat list \<Rightarrow> level mat \<Rightarrow> error + level mat" where
  "encoding_loop off vector [] sum_acc = Inr sum_acc"
| "encoding_loop off vector (i # is) sum_acc =
    (if i < length vector
     then encoding_loop off vector is
            (sum_acc + cmul (\<i> * complex_of_real (vector ! i)) (generators ! (i + off)))
     else Inl IndexError)"

definition encoding_seed :: "real list \<Rightarrow> error + level cvec" where
  "encoding_seed vector =
    (case encoding_loop 0 vector [0..<4] 0 of
       Inl e \<Rightarrow> Inl e
     | Inr sum_acc \<Rightarrow> Inr (mat_vec (expm sum_acc) q0))"

definition encoding_iris :: "real list \<Rightarrow> error + level cvec" where
  "encoding_iris vector =
    (case encoding_loop 0 vector [0..<4] 0 of
       Inl e \<Rightarrow> Inl e
     | Inr sum_acc \<Rightarrow> Inr (mat_vec (expm sum_acc) (mat_vec H q0)))"

definition encoding_wine :: "real list \<Rightarrow> error + level cvec" where
  "encoding_wine vector =
    (case encoding_loop 4 vector [0..<4] 0 of
       Inl e \<Rightarrow> Inl e
     | Inr sum_acc \<Rightarrow> Inr (mat_vec (expm sum_acc) q0))"


section \<open>Kernels\<close>

text \<open>
  The two-qutrit kernels (Seed and Glass notebooks) encode \<^verbatim>\<open>x[:4]\<close> and \<^verbatim>\<open>x[4:]\<close>, the
  Iris kernel encodes the whole of \<^verbatim>\<open>x\<close> twice, and the Wine kernel takes three slices
  and applies no entangling gate.  Each returns \<^verbatim>\<open>np.real(np.dot(kron1.conj().T, kron2)**2)[0][0]\<close>.
\<close>

definition entangled_kernel ::
  "(real list \<Rightarrow> error + level cvec) \<Rightarrow> real list \<Rightarrow> real list \<Rightarrow> real list \<Rightarrow> real list
    \<Rightarrow> error + real" where
  "entangled_kernel enc a1 b1 a2 b2 =
    (case enc a1 of Inl e \<Rightarrow> Inl e | Inr qutrit_1 \<Rightarrow>
     case enc b1 of Inl e \<Rightarrow> Inl e | Inr qutrit_2 \<Rightarrow>
       let entangle_gate = cmul \<i> LZZ2;
           qutrit_1x2 = kron_vec qutrit_1 qutrit_2;
           kron1 = mat_vec (expm entangle_gate) qutrit_1x2
       in
     case enc a2 of Inl e \<Rightarrow> Inl e | Inr qutrit_1 \<Rightarrow>
     case enc b2 of Inl e \<Rightarrow> Inl e | Inr qutrit_2 \<Rightarrow>
       let qutrit_1x2 = kron_vec qutrit_1 qutrit_2;
           kron2 = mat_vec (expm entangle_gate) qutrit_1x2
       in Inr (Re ((cdot kron1 kron2)\<^sup>2)))"

definition kernel_seed :: "real list \<Rightarrow> real list \<Rightarrow> error + real" where
  "kernel_seed x1 x2 = entangled_kernel encoding_seed (take 4 x1) (drop 4 x1) (take 4 x2) (drop 4 x2)"

definition kernel_glass :: "real list \<Rightarrow> real list \<Rightarrow> error + real" where
  "kernel_glass x1 x2 = entangled_kernel encoding_iris (take 4 x1) (drop 4 x1) (take 4 x2) (drop 4 x2)"

definition kernel_iris :: "real list \<Rightarrow> real list \<Rightarrow> error + real" where
  "kernel_iris x1 x2 = entangled_kernel encoding_iris x1 x1 x2 x2"

definition kernel_wine :: "real list \<Rightarrow> real list \<Rightarrow> error + real" where
  "kernel_wine x1 x2 =
    (case encoding_wine (take 4 x1) of Inl e \<Rightarrow> Inl e | Inr enc1 \<Rightarrow>
     case encoding_wine (take 4 (drop 4 x1)) of Inl e \<Rightarrow> Inl e | Inr enc2 \<Rightarrow>
     case encoding_wine (take 4 (drop 8 x1)) of Inl e \<Rightarrow> Inl e | Inr enc3 \<Rightarrow>
       let kron1 = kron_vec (kron_vec enc1 enc2) enc3 in
     case encoding_wine (take 4 x2) of Inl e \<Rightarrow> Inl e | Inr enc1 \<Rightarrow>
     case encoding_wine (take 4 (drop 4 x1)) of Inl e \<Rightarrow> Inl e | Inr enc2 \<Rightarrow>
     case encoding_wine (take 4 (drop 8 x1)) of Inl e \<Rightarrow> Inl e | Inr enc3 \<Rightarrow>
       let kron2 = kron_vec (kron_vec enc1 enc2) enc3 in
       Inr (Re ((cdot kron1 kron2)\<^sup>2)))"

fun collect :: "(error + 'a) list \<Rightarrow> error + 'a list" where
  "collect [] = Inr []"
| "collect (r # rs) =
    (case r of Inl e \<Rightarrow> Inl e
     | Inr v \<Rightarrow> (case collect rs of Inl e \<Rightarrow> Inl e | Inr vs \<Rightarrow> Inr (v # vs)))"

definition kernel_matrix ::
  "(real list \<Rightarrow> real list \<Rightarrow> error + real) \<Rightarrow> real list list \<Rightarrow> real list list
    \<Rightarrow> error + real list list" where
  "kernel_matrix kernel_fn A B = collect (map (\<lambda>a. collect (map (\<lambda>b. kernel_fn a b) B)) A)"


section \<open>The kernel as the specification words it\<close>

text \<open>
  The specification builds both joint states by one procedure, applied to \<open>x1\<close> and to
  \<open>x2\<close>: cut the vector into consecutive chunks of four, encode each chunk, take the
  Kronecker product, and in the entangled variants apply the exponential of \<open>\<i> LZZ2\<close>.  The
  kernel value is the real part of the square of the inner product of the two joint states.
\<close>

definition joint_state_seed_spec :: "real list \<Rightarrow> error + (level \<times> level) cvec" where
  "joint_state_seed_spec x =
    (case encoding_seed (take 4 x) of Inl e \<Rightarrow> Inl e | Inr chunk_1 \<Rightarrow>
     case encoding_seed (drop 4 x) of Inl e \<Rightarrow> Inl e | Inr chunk_2 \<Rightarrow>
       Inr (mat_vec (expm (cmul \<i> LZZ2)) (kron_vec chunk_1 chunk_2)))"

definition joint_state_wine_spec :: "real list \<Rightarrow> error + ((level \<times> level) \<times> level) cvec" where
  "joint_state_wine_spec x =
    (case encoding_wine (take 4 x) of Inl e \<Rightarrow> Inl e | Inr chunk_1 \<Rightarrow>
     case encoding_wine (take 4 (drop 4 x)) of Inl e \<Rightarrow> Inl e | Inr chunk_2 \<Rightarrow>
     case encoding_wine (take 4 (drop 8 x)) of Inl e \<Rightarrow> Inl e | Inr chunk_3 \<Rightarrow>
       Inr (kron_vec (kron_vec chunk_1 chunk_2) chunk_3))"

definition kernel_spec ::
  "(real list \<Rightarrow> error + ('n::finite) cvec) \<Rightarrow> real list \<Rightarrow> real list \<Rightarrow> error + real" where
  "kernel_spec joint_state x1 x2 =
    (case joint_state x1 of Inl e \<Rightarrow> Inl e | Inr \<psi>1 \<Rightarrow>
     case joint_state x2 of Inl e \<Rightarrow> Inl e | Inr \<psi>2 \<Rightarrow>
       Inr (Re ((cdot \<psi>1 \<psi>2)\<^sup>2)))"


section \<open>Algebra of the array operations\<close>

lemma entry_cmul [simp]: "entry (cmul c A) i j = c * entry A i j"
  by (simp add: cmul_def)

lemma entry_dagger [simp]: "entry (dagger A) i j = cnj (entry A j i)"
  by (simp add: dagger_def)

lemma entry_kron_col_row [simp]: "entry (kron_col_row u v) i j = u i * v j"
  by (simp add: kron_col_row_def)

lemma entry_kron_mat [simp]: "entry (kron_mat A B) (i, k) (j, l) = entry A i j * entry B k l"
  by (simp add: kron_mat_def)

lemma dagger_dagger [simp]: "dagger (dagger A) = A"
  by (rule mat_eqI) simp

lemma dagger_zero [simp]: "dagger 0 = 0"
  by (rule mat_eqI) simp

lemma dagger_one [simp]: "dagger 1 = 1"
  by (rule mat_eqI) auto

lemma dagger_plus: "dagger (A + B) = dagger A + dagger B"
  by (rule mat_eqI) simp

lemma dagger_uminus: "dagger (- A) = - dagger A"
  by (rule mat_eqI) simp

lemma dagger_minus: "dagger (A - B) = dagger A - dagger B"
  by (rule mat_eqI) simp

lemma dagger_scaleR: "dagger (r *\<^sub>R A) = r *\<^sub>R dagger A"
  by (rule mat_eqI) simp

lemma dagger_cmul: "dagger (cmul c A) = cmul (cnj c) (dagger A)"
  by (rule mat_eqI) simp

lemma dagger_times: "dagger (A * B) = dagger B * dagger A"
  by (rule mat_eqI) (simp add: entry_times mult.commute)

lemma dagger_power: "dagger (A ^ n) = dagger A ^ n"
  by (induction n) (simp_all add: dagger_times power_commutes)

lemma bounded_linear_dagger: "bounded_linear (dagger :: ('n::finite) mat \<Rightarrow> 'n mat)"
proof (rule bounded_linear_intro)
  fix A B :: "'n mat" and r :: real
  show "dagger (A + B) = dagger A + dagger B"
    by (rule dagger_plus)
  show "dagger (r *\<^sub>R A) = r *\<^sub>R dagger A"
    by (rule dagger_scaleR)
  have "norm (dagger A) \<le> (\<Sum>i\<in>(UNIV::'n set). \<Sum>j\<in>(UNIV::'n set). cmod (entry (dagger A) i j))"
    by (rule norm_mat_le_sum)
  also have "\<dots> \<le> (\<Sum>i\<in>(UNIV::'n set). \<Sum>j\<in>(UNIV::'n set). norm A)"
    by (intro sum_mono) (simp add: cmod_entry_le_norm)
  also have "\<dots> = norm A * ((real (card (UNIV::'n set)) * real (card (UNIV::'n set))))"
    by simp
  finally show "norm (dagger A) \<le> norm A * ((real (card (UNIV::'n set)) * real (card (UNIV::'n set))))" .
qed

lemma dagger_exp: "dagger (exp A) = exp (dagger A)"
proof -
  have "dagger (exp A) = (\<Sum>n. dagger (A ^ n /\<^sub>R fact n))"
    unfolding exp_def
    by (rule bounded_linear.suminf [OF bounded_linear_dagger summable_exp_generic])
  also have "\<dots> = exp (dagger A)"
    by (simp add: exp_def dagger_scaleR dagger_power)
  finally show ?thesis .
qed

lemma unitary_exp_skew:
  assumes "skew A"
  shows "unitary (expm A)"
proof -
  have d: "dagger (exp A) = exp (- A)"
    using assms by (simp add: dagger_exp skew_def)
  have "exp A * exp (- A) = 1"
    by (rule exp_minus_inverse)
  moreover have "exp (- A) * exp A = 1"
    using exp_minus_inverse [of "- A"] by simp
  ultimately show ?thesis
    by (simp add: unitary_def expm_def d)
qed

lemma skew_zero: "skew 0"
  by (simp add: skew_def)

lemma skew_plus: "skew A \<Longrightarrow> skew B \<Longrightarrow> skew (A + B)"
  by (simp add: skew_def dagger_plus)

lemma skew_cmul_hermitian: "hermitian G \<Longrightarrow> skew (cmul (\<i> * complex_of_real r) G)"
  by (simp add: skew_def hermitian_def dagger_cmul) (rule mat_eqI, simp)

lemma mat_vec_times: "mat_vec (A * B) v = mat_vec A (mat_vec B v)"
proof
  fix i
  have "(\<Sum>j\<in>UNIV. (\<Sum>k\<in>UNIV. entry A i k * entry B k j) * v j)
      = (\<Sum>j\<in>UNIV. \<Sum>k\<in>UNIV. entry A i k * (entry B k j * v j))"
    by (simp add: sum_distrib_right mult.assoc)
  also have "\<dots> = (\<Sum>k\<in>UNIV. \<Sum>j\<in>UNIV. entry A i k * (entry B k j * v j))"
    by (rule sum.swap)
  finally show "mat_vec (A * B) v i = mat_vec A (mat_vec B v) i"
    by (simp add: mat_vec_def entry_times sum_distrib_left)
qed

lemma mat_vec_one [simp]: "mat_vec 1 v = v"
  by (rule ext) (simp add: mat_vec_def if_distrib [of "\<lambda>x. x * _"] cong: if_cong)

lemma cdot_mat_vec: "cdot (mat_vec A u) v = cdot u (mat_vec (dagger A) v)"
proof -
  have "(\<Sum>i\<in>UNIV. cnj (\<Sum>j\<in>UNIV. entry A i j * u j) * v i)
      = (\<Sum>i\<in>UNIV. \<Sum>j\<in>UNIV. cnj (u j) * (cnj (entry A i j) * v i))"
    by (simp add: sum_distrib_right mult.assoc mult.commute [of "cnj (entry A _ _)" "cnj (u _)"])
  also have "\<dots> = (\<Sum>j\<in>UNIV. \<Sum>i\<in>UNIV. cnj (u j) * (cnj (entry A i j) * v i))"
    by (rule sum.swap)
  finally show ?thesis
    by (simp add: cdot_def mat_vec_def sum_distrib_left)
qed

lemma cdot_unitary:
  assumes "unitary U"
  shows "cdot (mat_vec U u) (mat_vec U v) = cdot u v"
proof -
  have "cdot (mat_vec U u) (mat_vec U v) = cdot u (mat_vec (dagger U * U) v)"
    by (simp add: cdot_mat_vec mat_vec_times)
  then show ?thesis
    using assms by (simp add: unitary_def)
qed

lemma cdot_kron_vec: "cdot (kron_vec a b) (kron_vec c d) = cdot a c * cdot b d"
proof -
  have "(\<Sum>p\<in>UNIV. cnj (kron_vec a b p) * kron_vec c d p)
      = (\<Sum>p\<in>UNIV \<times> UNIV. case p of (i, k) \<Rightarrow> (cnj (a i) * c i) * (cnj (b k) * d k))"
    by (simp add: kron_vec_def case_prod_unfold mult_ac)
  also have "\<dots> = (\<Sum>i\<in>UNIV. \<Sum>k\<in>UNIV. (cnj (a i) * c i) * (cnj (b k) * d k))"
    by (simp add: sum.cartesian_product)
  finally show ?thesis
    by (simp add: cdot_def sum_product)
qed

lemma cdot_commute: "cdot v u = cnj (cdot u v)"
  by (simp add: cdot_def mult.commute)

lemma vnorm_cdot: "cdot v v = complex_of_real ((vnorm v)\<^sup>2)"
proof -
  have "0 \<le> (\<Sum>i\<in>UNIV. (cmod (v i))\<^sup>2)"
    by (simp add: sum_nonneg)
  moreover have "cnj (v i) * v i = complex_of_real ((cmod (v i))\<^sup>2)" for i
    using complex_norm_square [of "v i"] by (simp only: mult.commute)
  ultimately show ?thesis
    by (simp add: cdot_def vnorm_def del: of_real_power)
qed



section \<open>Properties of the qutrit constants\<close>

lemma sum_level: "(\<Sum>i\<in>(UNIV :: level set). f i) = f L0 + f L1 + f L2"
  by (simp add: UNIV_level add.assoc)

lemma card_level [simp]: "card (UNIV :: level set) = 3"
  by (simp add: UNIV_level)

lemma vec3_simps [simp]: "vec3 a b c L0 = a" "vec3 a b c L1 = b" "vec3 a b c L2 = c"
  by (simp_all add: vec3_def)

lemma entry_diag_mat [simp]: "entry (diag_mat d) i j = (if i = j then d i else 0)"
  by (simp add: diag_mat_def)

lemma level_mat_eqI:
  fixes A B :: "level mat"
  assumes "entry A L0 L0 = entry B L0 L0" "entry A L0 L1 = entry B L0 L1" "entry A L0 L2 = entry B L0 L2"
    and "entry A L1 L0 = entry B L1 L0" "entry A L1 L1 = entry B L1 L1" "entry A L1 L2 = entry B L1 L2"
    and "entry A L2 L0 = entry B L2 L0" "entry A L2 L1 = entry B L2 L1" "entry A L2 L2 = entry B L2 L2"
  shows "A = B"
proof (rule mat_eqI)
  fix i j
  show "entry A i j = entry B i j"
    using assms by (cases i; cases j) simp_all
qed

lemmas gm_defs = gm1_def gm2_def gm3_def gm4_def gm5_def gm6_def gm7_def gm8_def q0_def q1_def q2_def

lemma hermitian_gm:
  "hermitian gm1" "hermitian gm2" "hermitian gm3" "hermitian gm4"
  "hermitian gm5" "hermitian gm6" "hermitian gm7" "hermitian gm8"
  unfolding hermitian_def by (rule level_mat_eqI; simp add: gm_defs)+

lemma trace_gm:
  "trace gm1 = 0" "trace gm2 = 0" "trace gm3 = 0" "trace gm4 = 0"
  "trace gm5 = 0" "trace gm6 = 0" "trace gm7 = 0" "trace gm8 = 0"
  by (simp_all add: trace_def sum_level gm_defs)

lemma gm8_explicit:
  "gm8 = diag_mat (vec3 (complex_of_real (1 / sqrt 3)) (complex_of_real (1 / sqrt 3))
      (complex_of_real (- 2 / sqrt 3)))"
  by (rule level_mat_eqI; simp add: gm_defs)

lemma entry_H_col0: "entry H i L0 = complex_of_real (1 / sqrt 3)"
  by (cases i) (simp_all add: H_def)

lemma H_q0: "mat_vec H q0 = vec3 (complex_of_real (1 / sqrt 3)) (complex_of_real (1 / sqrt 3))
  (complex_of_real (1 / sqrt 3))"
proof
  fix i
  show "mat_vec H q0 i = vec3 (complex_of_real (1 / sqrt 3)) (complex_of_real (1 / sqrt 3))
    (complex_of_real (1 / sqrt 3)) i"
    by (cases i) (simp_all add: mat_vec_def sum_level q0_def entry_H_col0)
qed

lemma omega_plus: "exp (2 * \<i> * complex_of_real pi / 3) = Complex (- 1 / 2) (sqrt 3 / 2)"
proof -
  have "exp (2 * \<i> * complex_of_real pi / 3) = cis (2 * pi / 3)"
    by (simp add: cis_conv_exp mult_ac)
  also have "\<dots> = Complex (- 1 / 2) (sqrt 3 / 2)"
    by (simp add: complex_eq_iff cos_120 sin_120)
  finally show ?thesis .
qed

lemma omega_minus: "exp (- (2 * \<i> * complex_of_real pi / 3)) = Complex (- 1 / 2) (- sqrt 3 / 2)"
proof -
  have "exp (- (2 * \<i> * complex_of_real pi / 3)) = cis (- (2 * pi / 3))"
    by (simp add: cis_conv_exp mult_ac)
  also have "\<dots> = Complex (- 1 / 2) (- sqrt 3 / 2)"
    by (simp add: complex_eq_iff cos_120 sin_120)
  finally show ?thesis .
qed

lemma H_explicit:
  "H = Mat (\<lambda>i j. case (i, j) of
        (L0, _) \<Rightarrow> Complex (1 / sqrt 3) 0
      | (_, L0) \<Rightarrow> Complex (1 / sqrt 3) 0
      | (L1, L1) \<Rightarrow> Complex (- 1 / (2 * sqrt 3)) (1 / 2)
      | (L1, L2) \<Rightarrow> Complex (- 1 / (2 * sqrt 3)) (- 1 / 2)
      | (L2, L1) \<Rightarrow> Complex (- 1 / (2 * sqrt 3)) (- 1 / 2)
      | (L2, L2) \<Rightarrow> Complex (- 1 / (2 * sqrt 3)) (1 / 2))"
  by (rule level_mat_eqI; simp add: H_def omega_plus omega_minus complex_eq_iff real_div_sqrt)

lemma unitary_H: "unitary H"
  unfolding unitary_def
  by (rule conjI; rule level_mat_eqI;
      simp add: H_explicit entry_times sum_level complex_eq_iff field_simps)


section \<open>Encoding loop\<close>

lemma hermitian_plus: "hermitian A \<Longrightarrow> hermitian B \<Longrightarrow> hermitian (A + B)"
  by (simp add: hermitian_def dagger_plus)

lemma hermitian_cmul_real: "hermitian A \<Longrightarrow> hermitian (cmul (complex_of_real r) A)"
  by (simp add: hermitian_def dagger_cmul)

lemma hermitian_kron_mat: "hermitian A \<Longrightarrow> hermitian B \<Longrightarrow> hermitian (kron_mat A B)"
proof -
  assume A: "hermitian A" and B: "hermitian B"
  have a: "cnj (entry A j i) = entry A i j" for i j
    using A entry_dagger [of A i j] by (simp add: hermitian_def)
  have b: "cnj (entry B j i) = entry B i j" for i j
    using B entry_dagger [of B i j] by (simp add: hermitian_def)
  show ?thesis
    unfolding hermitian_def
    by (rule mat_eqI) (simp add: kron_mat_def dagger_def case_prod_unfold a b)
qed

lemma hermitian_LZ2: "hermitian LZ2"
  unfolding LZ2_def by (intro hermitian_plus hermitian_cmul_real hermitian_gm)

lemma hermitian_LZZ2: "hermitian LZZ2"
  unfolding LZZ2_def by (intro hermitian_kron_mat hermitian_LZ2)

lemma skew_i_hermitian: "hermitian A \<Longrightarrow> skew (cmul \<i> A)"
  using skew_cmul_hermitian [of A 1] by simp

lemma unitary_entangle: "unitary (expm (cmul \<i> LZZ2))"
  by (intro unitary_exp_skew skew_i_hermitian hermitian_LZZ2)

lemma LZ2_explicit: "LZ2 = diag_mat (vec3 2 0 (- 2))"
  by (rule level_mat_eqI; simp add: LZ2_def gm_defs)

lemma diagonal_LZZ2: "diagonal LZZ2"
  unfolding diagonal_def
  by (rule mat_eqI) (auto simp add: LZZ2_def LZ2_explicit kron_mat_def diag_mat_def split: if_splits)

lemma hermitian_generators: "k < 8 \<Longrightarrow> hermitian (generators ! k)"
proof -
  assume "k < 8"
  then have "k < length generators"
    by (simp add: generators_def)
  then have "generators ! k \<in> set generators"
    by (rule nth_mem)
  then show ?thesis
    by (auto simp add: generators_def hermitian_gm)
qed

lemma range4: "[0..<4] = [0, 1, 2, 3]"
  by (simp add: upt_rec)

lemma encoding_loop_skew:
  "skew acc \<Longrightarrow> \<forall>i\<in>set ixs. i < length v \<and> i + off < 8
    \<Longrightarrow> \<exists>S. encoding_loop off v ixs acc = Inr S \<and> skew S"
proof (induction ixs arbitrary: acc)
  case Nil
  then show ?case by simp
next
  case (Cons i ixs)
  have "skew (acc + cmul (\<i> * complex_of_real (v ! i)) (generators ! (i + off)))"
    using Cons.prems by (intro skew_plus skew_cmul_hermitian hermitian_generators) simp_all
  then show ?case
    using Cons.IH Cons.prems by simp
qed

lemma encoding_loop_short:
  "\<exists>i\<in>set ixs. \<not> i < length v \<Longrightarrow> encoding_loop off v ixs acc = Inl IndexError"
  by (induction ixs arbitrary: acc) auto

lemma encoding_loop_zero:
  "\<forall>i\<in>set ixs. i < n \<Longrightarrow> encoding_loop off (replicate n 0) ixs 0 = Inr 0"
proof (induction ixs)
  case Nil
  then show ?case by simp
next
  case (Cons i ixs)
  have "cmul 0 (generators ! (i + off)) = 0"
    by (rule mat_eqI) simp
  then show ?case
    using Cons by simp
qed

lemma vnorm_unitary:
  assumes "unitary U"
  shows "vnorm (mat_vec U v) = vnorm v"
proof -
  have "complex_of_real ((vnorm (mat_vec U v))\<^sup>2) = complex_of_real ((vnorm v)\<^sup>2)"
    using cdot_unitary [OF assms, of v v] by (simp only: vnorm_cdot)
  then have "(vnorm (mat_vec U v))\<^sup>2 = (vnorm v)\<^sup>2"
    by (simp only: of_real_eq_iff)
  moreover have "0 \<le> vnorm w" for w :: "'a cvec"
    by (simp add: vnorm_def sum_nonneg)
  ultimately show ?thesis
    by (simp add: power2_eq_iff_nonneg)
qed

lemma vnorm_q0: "vnorm q0 = 1"
  by (simp add: vnorm_def sum_level q0_def)

lemma vnorm_H_q0: "vnorm (mat_vec H q0) = 1"
  by (simp add: vnorm_unitary unitary_H vnorm_q0)

lemma encoding_loop_4:
  assumes "4 \<le> length v" "off \<le> 4"
  shows "\<exists>S. encoding_loop off v [0..<4] 0 = Inr S \<and> skew S"
  using assms by (intro encoding_loop_skew skew_zero) auto

lemma encoding_unit:
  assumes "4 \<le> length v" "off \<le> 4" "vnorm b = 1"
  shows "\<exists>S. encoding_loop off v [0..<4] 0 = Inr S \<and> vnorm (mat_vec (expm S) b) = 1"
proof -
  obtain S where S: "encoding_loop off v [0..<4] 0 = Inr S" "skew S"
    using encoding_loop_4 [OF assms(1,2)] by blast
  have "vnorm (mat_vec (expm S) b) = 1"
    using S(2) assms(3) by (simp add: vnorm_unitary unitary_exp_skew)
  with S(1) show ?thesis
    by blast
qed


section \<open>Kernel evaluation\<close>

lemma entangled_kernel_value:
  assumes "enc a1 = Inr p1" "enc b1 = Inr p2" "enc a2 = Inr r1" "enc b2 = Inr r2"
  shows "entangled_kernel enc a1 b1 a2 b2 = Inr (Re ((cdot p1 r1 * cdot p2 r2)\<^sup>2))"
  using assms
  by (simp add: entangled_kernel_def Let_def cdot_unitary [OF unitary_entangle] cdot_kron_vec)

lemma entangled_kernel_error:
  assumes "enc a1 = Inl e \<or> enc b1 = Inl e \<or> enc a2 = Inl e \<or> enc b2 = Inl e"
  shows "entangled_kernel enc a1 b1 a2 b2 = Inl IndexError"
proof -
  have "e' = IndexError" for e' :: error
    by (cases e') simp
  then show ?thesis
    using assms by (auto simp add: entangled_kernel_def Let_def split: sum.splits)
qed

lemma Re_power2_cnj: "Re ((cnj z)\<^sup>2) = Re (z\<^sup>2)"
  by (simp add: power2_eq_square)

lemma entangled_kernel_swap:
  "entangled_kernel enc a1 b1 a2 b2 = entangled_kernel enc a2 b2 a1 b1"
proof (cases "\<exists>p1 p2 r1 r2. enc a1 = Inr p1 \<and> enc b1 = Inr p2 \<and> enc a2 = Inr r1 \<and> enc b2 = Inr r2")
  case True
  then obtain p1 p2 r1 r2
    where e: "enc a1 = Inr p1" "enc b1 = Inr p2" "enc a2 = Inr r1" "enc b2 = Inr r2"
    by blast
  have c: "cdot r1 p1 * cdot r2 p2 = cnj (cdot p1 r1 * cdot p2 r2)"
    by (simp add: cdot_commute [of r1 p1] cdot_commute [of r2 p2])
  have "Re ((cdot r1 p1 * cdot r2 p2)\<^sup>2) = Re ((cdot p1 r1 * cdot p2 r2)\<^sup>2)"
    by (simp only: c Re_power2_cnj)
  then show ?thesis
    by (simp only: entangled_kernel_value [OF e] entangled_kernel_value [OF e(3,4,1,2)])
next
  case False
  then have "\<exists>e. enc a1 = Inl e \<or> enc b1 = Inl e \<or> enc a2 = Inl e \<or> enc b2 = Inl e"
    by (metis sum.exhaust)
  then obtain e where e: "enc a1 = Inl e \<or> enc b1 = Inl e \<or> enc a2 = Inl e \<or> enc b2 = Inl e"
    by blast
  then have "enc a2 = Inl e \<or> enc b2 = Inl e \<or> enc a1 = Inl e \<or> enc b1 = Inl e"
    by blast
  then show ?thesis
    using e by (simp only: entangled_kernel_error)
qed

lemma cdot_self_unit: "vnorm v = 1 \<Longrightarrow> cdot v v = 1"
  by (simp add: vnorm_cdot)

lemma collect_map:
  assumes "\<And>x. x \<in> set xs \<Longrightarrow> \<exists>y. f x = Inr y"
  shows "\<exists>ys. collect (map f xs) = Inr ys \<and> length ys = length xs
    \<and> (\<forall>i<length xs. f (xs ! i) = Inr (ys ! i))"
  using assms
proof (induction xs)
  case Nil
  then show ?case by simp
next
  case (Cons x xs)
  obtain y where y: "f x = Inr y"
    using Cons.prems by auto
  obtain ys where ys: "collect (map f xs) = Inr ys" "length ys = length xs"
    "\<forall>i<length xs. f (xs ! i) = Inr (ys ! i)"
    using Cons by auto
  have "\<forall>i<length (x # xs). f ((x # xs) ! i) = Inr ((y # ys) ! i)"
    using y ys(3) by (auto simp add: nth_Cons split: nat.splits)
  then show ?case
    using y ys(1,2) by simp
qed

lemma kernel_matrix_entries:
  assumes "\<And>a b. a \<in> set A \<Longrightarrow> b \<in> set B \<Longrightarrow> \<exists>r. kernel_fn a b = Inr r"
  shows "\<exists>M. kernel_matrix kernel_fn A B = Inr M \<and> length M = length A
    \<and> (\<forall>i<length A. length (M ! i) = length B
          \<and> (\<forall>j<length B. kernel_fn (A ! i) (B ! j) = Inr (M ! i ! j)))"
proof -
  let ?row = "\<lambda>a. collect (map (\<lambda>b. kernel_fn a b) B)"
  have row: "\<exists>ys. ?row a = Inr ys \<and> length ys = length B
      \<and> (\<forall>j<length B. kernel_fn a (B ! j) = Inr (ys ! j))" if "a \<in> set A" for a
    using assms [OF that] by (intro collect_map) blast
  then have "\<And>a. a \<in> set A \<Longrightarrow> \<exists>ys. ?row a = Inr ys"
    by blast
  from collect_map [of A ?row, OF this]
  obtain M where M: "collect (map ?row A) = Inr M" "length M = length A"
    "\<forall>i<length A. ?row (A ! i) = Inr (M ! i)"
    by blast
  have "length (M ! i) = length B \<and> (\<forall>j<length B. kernel_fn (A ! i) (B ! j) = Inr (M ! i ! j))"
    if "i < length A" for i
    using row [of "A ! i"] M(3) that by auto
  then show ?thesis
    using M(1,2) by (auto simp add: kernel_matrix_def)
qed

lemma encoding_seed_unit:
  "4 \<le> length v \<Longrightarrow> \<exists>\<psi>. encoding_seed v = Inr \<psi> \<and> vnorm \<psi> = 1"
  using encoding_unit [of v 0 q0] by (auto simp add: encoding_seed_def vnorm_q0)

lemma encoding_iris_unit:
  "4 \<le> length v \<Longrightarrow> \<exists>\<psi>. encoding_iris v = Inr \<psi> \<and> vnorm \<psi> = 1"
  using encoding_unit [of v 0 "mat_vec H q0"] by (auto simp add: encoding_iris_def vnorm_H_q0)

lemma encoding_wine_unit:
  "4 \<le> length v \<Longrightarrow> \<exists>\<psi>. encoding_wine v = Inr \<psi> \<and> vnorm \<psi> = 1"
  using encoding_unit [of v 4 q0] by (auto simp add: encoding_wine_def vnorm_q0)

lemma kernel_seed_defined:
  assumes "8 \<le> length x1" "8 \<le> length x2"
  shows "\<exists>r. kernel_seed x1 x2 = Inr r"
proof -
  have len: "4 \<le> length (take 4 x1)" "4 \<le> length (drop 4 x1)"
    "4 \<le> length (take 4 x2)" "4 \<le> length (drop 4 x2)"
    using assms by simp_all
  obtain p1 p2 r1 r2 where "encoding_seed (take 4 x1) = Inr p1" "encoding_seed (drop 4 x1) = Inr p2"
    "encoding_seed (take 4 x2) = Inr r1" "encoding_seed (drop 4 x2) = Inr r2"
    using encoding_seed_unit [OF len(1)] encoding_seed_unit [OF len(2)]
      encoding_seed_unit [OF len(3)] encoding_seed_unit [OF len(4)]
    by blast
  then show ?thesis
    by (simp add: kernel_seed_def entangled_kernel_value)
qed

lemma kernel_seed_self:
  assumes "8 \<le> length x"
  shows "kernel_seed x x = Inr 1"
proof -
  have len: "4 \<le> length (take 4 x)" "4 \<le> length (drop 4 x)"
    using assms by simp_all
  obtain p1 p2 where p: "encoding_seed (take 4 x) = Inr p1" "vnorm p1 = 1"
    "encoding_seed (drop 4 x) = Inr p2" "vnorm p2 = 1"
    using encoding_seed_unit [OF len(1)] encoding_seed_unit [OF len(2)]
    by blast
  then show ?thesis
    by (simp add: kernel_seed_def entangled_kernel_value cdot_self_unit)
qed

lemma kernel_wine_value:
  assumes "encoding_wine (take 4 x1) = Inr a1" "encoding_wine (take 4 (drop 4 x1)) = Inr a2"
    "encoding_wine (take 4 (drop 8 x1)) = Inr a3" "encoding_wine (take 4 x2) = Inr b1"
  shows "kernel_wine x1 x2 = Inr (Re ((cdot a1 b1 * cdot a2 a2 * cdot a3 a3)\<^sup>2))"
  using assms by (simp add: kernel_wine_def Let_def cdot_kron_vec)

lemma entangled_kernel_symmetric_value:
  assumes "\<And>v. 4 \<le> length v \<Longrightarrow> \<exists>\<psi>. enc v = Inr \<psi>"
    and "4 \<le> length a1" "4 \<le> length b1" "4 \<le> length a2" "4 \<le> length b2"
  shows "\<exists>r. entangled_kernel enc a1 b1 a2 b2 = Inr r \<and> entangled_kernel enc a2 b2 a1 b1 = Inr r"
proof -
  obtain p1 p2 r1 r2 where "enc a1 = Inr p1" "enc b1 = Inr p2" "enc a2 = Inr r1" "enc b2 = Inr r2"
    using assms(1) [OF assms(2)] assms(1) [OF assms(3)] assms(1) [OF assms(4)]
      assms(1) [OF assms(5)]
    by blast
  then have "\<exists>r. entangled_kernel enc a1 b1 a2 b2 = Inr r"
    by (simp add: entangled_kernel_value)
  then show ?thesis
    using entangled_kernel_swap [of enc a1 b1 a2 b2] by auto
qed

lemma kernel_wine_symmetric_value:
  assumes "12 \<le> length x1" "12 \<le> length x2"
  shows "\<exists>r. kernel_wine x1 x2 = Inr r \<and> kernel_wine x2 x1 = Inr r"
proof -
  have len: "4 \<le> length (take 4 x1)" "4 \<le> length (take 4 (drop 4 x1))"
    "4 \<le> length (take 4 (drop 8 x1))" "4 \<le> length (take 4 x2)"
    "4 \<le> length (take 4 (drop 4 x2))" "4 \<le> length (take 4 (drop 8 x2))"
    using assms by simp_all
  obtain a1 a2 a3 where a: "encoding_wine (take 4 x1) = Inr a1"
    "encoding_wine (take 4 (drop 4 x1)) = Inr a2" "vnorm a2 = 1"
    "encoding_wine (take 4 (drop 8 x1)) = Inr a3" "vnorm a3 = 1"
    using encoding_wine_unit [OF len(1)] encoding_wine_unit [OF len(2)]
      encoding_wine_unit [OF len(3)]
    by blast
  obtain b1 b2 b3 where b: "encoding_wine (take 4 x2) = Inr b1"
    "encoding_wine (take 4 (drop 4 x2)) = Inr b2" "vnorm b2 = 1"
    "encoding_wine (take 4 (drop 8 x2)) = Inr b3" "vnorm b3 = 1"
    using encoding_wine_unit [OF len(4)] encoding_wine_unit [OF len(5)]
      encoding_wine_unit [OF len(6)]
    by blast
  have 1: "kernel_wine x1 x2 = Inr (Re ((cdot a1 b1)\<^sup>2))"
    using kernel_wine_value [OF a(1,2,4) b(1)] a(3,5) by (simp add: cdot_self_unit)
  have 2: "kernel_wine x2 x1 = Inr (Re ((cdot b1 a1)\<^sup>2))"
    using kernel_wine_value [OF b(1,2,4) a(1)] b(3,5) by (simp add: cdot_self_unit)
  have "Re ((cdot b1 a1)\<^sup>2) = Re ((cdot a1 b1)\<^sup>2)"
    by (simp only: cdot_commute [of b1 a1] Re_power2_cnj)
  with 1 2 show ?thesis
    by simp
qed


section \<open>Exponential on an eigenvector\<close>

lemma mat_vec_scaleR: "mat_vec (r *\<^sub>R A) v i = r *\<^sub>R mat_vec A v i"
  by (simp add: mat_vec_def scaleR_sum_right)

lemma bounded_linear_mat_vec: "bounded_linear (\<lambda>A. mat_vec A v i)"
proof (rule bounded_linear_intro)
  fix A B :: "'a mat" and r :: real
  show "mat_vec (A + B) v i = mat_vec A v i + mat_vec B v i"
    by (simp add: mat_vec_def distrib_right sum.distrib)
  show "mat_vec (r *\<^sub>R A) v i = r *\<^sub>R mat_vec A v i"
    by (rule mat_vec_scaleR)
  have "cmod (mat_vec A v i) \<le> (\<Sum>j\<in>UNIV. cmod (entry A i j) * cmod (v j))"
    unfolding mat_vec_def by (rule order_trans [OF norm_sum]) (simp add: norm_mult)
  also have "\<dots> \<le> (\<Sum>j\<in>UNIV. norm A * cmod (v j))"
    by (intro sum_mono mult_right_mono cmod_entry_le_norm) simp
  also have "\<dots> = norm A * (\<Sum>j\<in>UNIV. cmod (v j))"
    by (simp add: sum_distrib_left)
  finally show "cmod (mat_vec A v i) \<le> norm A * (\<Sum>j\<in>UNIV. cmod (v j))" .
qed

lemma mat_vec_power_eigen:
  assumes "mat_vec A v = (\<lambda>i. c * v i)"
  shows "mat_vec (A ^ n) v = (\<lambda>i. c ^ n * v i)"
proof (induction n)
  case 0
  show ?case by simp
next
  case (Suc n)
  have "mat_vec (A ^ Suc n) v = mat_vec (A ^ n) (mat_vec A v)"
    by (simp only: power_Suc2 mat_vec_times)
  also have "\<dots> = (\<lambda>i. c * mat_vec (A ^ n) v i)"
    by (simp only: assms) (simp add: mat_vec_def sum_distrib_left mult_ac)
  finally show ?case
    by (simp add: Suc mult_ac)
qed

lemma mat_vec_exp_eigen:
  assumes "mat_vec A v = (\<lambda>i. c * v i)"
  shows "mat_vec (expm A) v = (\<lambda>i. exp c * v i)"
proof
  fix i
  have "mat_vec (exp A) v i = (\<Sum>n. mat_vec (A ^ n /\<^sub>R fact n) v i)"
    unfolding exp_def
    by (rule bounded_linear.suminf [OF bounded_linear_mat_vec summable_exp_generic])
  also have "\<dots> = (\<Sum>n. (c ^ n /\<^sub>R fact n) * v i)"
    by (simp add: mat_vec_scaleR mat_vec_power_eigen [OF assms])
  also have "\<dots> = (\<Sum>n. c ^ n /\<^sub>R fact n) * v i"
    by (rule suminf_mult2 [symmetric]) (rule summable_exp_generic)
  finally show "mat_vec (expm A) v i = exp c * v i"
    by (simp add: expm_def exp_def)
qed

lemma cmul_zero [simp]: "cmul 0 A = 0"
  by (rule mat_eqI) simp

lemma cdot_q0 [simp]: "cdot q0 q0 = 1"
  by (simp add: cdot_self_unit vnorm_q0)

lemma encoding_seed_zero4: "encoding_seed [0, 0, 0, 0] = Inr q0"
  by (simp add: encoding_seed_def range4 expm_def)

lemma encoding_wine_zero4: "encoding_wine [0, 0, 0, 0] = Inr q0"
  by (simp add: encoding_wine_def range4 expm_def)

lemma encoding_seed_gm3: "encoding_seed [0, 0, 1, 0] = Inr (\<lambda>i. exp \<i> * q0 i)"
proof -
  have "mat_vec (cmul \<i> gm3) q0 = (\<lambda>i. \<i> * q0 i)"
  proof
    fix i
    show "mat_vec (cmul \<i> gm3) q0 i = \<i> * q0 i"
      by (cases i) (simp_all add: mat_vec_def sum_level gm_defs)
  qed
  then have "mat_vec (expm (cmul \<i> gm3)) q0 = (\<lambda>i. exp \<i> * q0 i)"
    by (rule mat_vec_exp_eigen)
  then show ?thesis
    by (simp add: encoding_seed_def range4 generators_def)
qed

lemma encoding_wine_gm8:
  "encoding_wine [0, 0, 0, 1] = Inr (\<lambda>i. exp (\<i> * complex_of_real (1 / sqrt 3)) * q0 i)"
proof -
  have "mat_vec (cmul \<i> gm8) q0 = (\<lambda>i. (\<i> * complex_of_real (1 / sqrt 3)) * q0 i)"
  proof
    fix i
    show "mat_vec (cmul \<i> gm8) q0 i = (\<i> * complex_of_real (1 / sqrt 3)) * q0 i"
      by (cases i) (simp_all add: mat_vec_def sum_level gm_defs)
  qed
  then have "mat_vec (expm (cmul \<i> gm8)) q0
      = (\<lambda>i. exp (\<i> * complex_of_real (1 / sqrt 3)) * q0 i)"
    by (rule mat_vec_exp_eigen)
  then show ?thesis
    by (simp add: encoding_wine_def range4 generators_def)
qed

lemma cdot_phase_q0: "cdot (\<lambda>i. c * q0 i) q0 = cnj c" "cdot q0 (\<lambda>i. c * q0 i) = c"
  by (simp_all add: cdot_def sum_level q0_def)

lemma Re_exp_i_squared: "Re ((exp (\<i> * complex_of_real t))\<^sup>2) = cos (2 * t)"
proof -
  have "(exp (\<i> * complex_of_real t))\<^sup>2 = exp (\<i> * complex_of_real (2 * t))"
    by (simp add: power2_eq_square exp_add [symmetric] algebra_simps)
  then show ?thesis
    by (simp only: Re_exp) simp
qed


section \<open>Concrete evaluations\<close>

lemma kernel_seed_refines_spec: "kernel_seed x1 x2 = kernel_spec joint_state_seed_spec x1 x2"
  by (simp add: kernel_seed_def entangled_kernel_def kernel_spec_def joint_state_seed_spec_def
      Let_def split: sum.splits)

lemma cos_two_over_sqrt3: "cos (2 / sqrt 3) < 1"
proof -
  have "1 < sqrt 3"
    by simp
  then have "2 / sqrt 3 < 2"
    by (simp add: field_simps)
  also have "2 \<le> pi"
    by (rule pi_ge_two)
  finally have "2 / sqrt 3 \<le> pi"
    by simp
  moreover have "0 < 2 / sqrt 3"
    by simp
  ultimately have "cos (2 / sqrt 3) < cos 0"
    by (intro cos_monotone_0_pi) simp_all
  then show ?thesis
    by simp
qed


section \<open>Verified properties of the notebooks\<close>

text \<open>
  C5: for an input of at least four real components, each notebook's \<open>encoding\<close> returns a
  state, and that state has norm 1.
\<close>

theorem encoding_unit_norm:
  assumes "4 \<le> length v"
  shows "(\<exists>\<psi>. encoding_seed v = Inr \<psi> \<and> vnorm \<psi> = 1)
    \<and> (\<exists>\<psi>. encoding_iris v = Inr \<psi> \<and> vnorm \<psi> = 1)
    \<and> (\<exists>\<psi>. encoding_wine v = Inr \<psi> \<and> vnorm \<psi> = 1)"
proof (intro conjI)
  show "\<exists>\<psi>. encoding_seed v = Inr \<psi> \<and> vnorm \<psi> = 1"
    using encoding_unit [OF assms, of 0 q0] by (auto simp add: encoding_seed_def vnorm_q0)
  show "\<exists>\<psi>. encoding_iris v = Inr \<psi> \<and> vnorm \<psi> = 1"
    using encoding_unit [OF assms, of 0 "mat_vec H q0"]
    by (auto simp add: encoding_iris_def vnorm_H_q0)
  show "\<exists>\<psi>. encoding_wine v = Inr \<psi> \<and> vnorm \<psi> = 1"
    using encoding_unit [OF assms, of 4 q0] by (auto simp add: encoding_wine_def vnorm_q0)
qed

theorem encoding_unit_norm_witness:
  "(\<exists>\<psi>. encoding_seed [1, 2, 3, 4] = Inr \<psi> \<and> vnorm \<psi> = 1)
    \<and> (\<exists>\<psi>. encoding_iris [1, 2, 3, 4] = Inr \<psi> \<and> vnorm \<psi> = 1)
    \<and> (\<exists>\<psi>. encoding_wine [1, 2, 3, 4] = Inr \<psi> \<and> vnorm \<psi> = 1)"
  using encoding_unit_norm [of "[1, 2, 3, 4]"] by simp

text \<open>
  C6: on an all-zero feature vector (of at least four components) \<open>encoding\<close> returns its
  base vector unchanged: \<open>q0\<close> in the Seed and Wine notebooks, \<open>H q0\<close> in the Iris and Glass
  notebooks.
\<close>

theorem encoding_zero_vector:
  assumes "4 \<le> n"
  shows "encoding_seed (replicate n 0) = Inr q0
    \<and> encoding_iris (replicate n 0) = Inr (mat_vec H q0)
    \<and> encoding_wine (replicate n 0) = Inr q0"
proof -
  have "encoding_loop off (replicate n 0) [0..<4] 0 = Inr 0" for off
    using assms by (intro encoding_loop_zero) auto
  then show ?thesis
    by (simp add: encoding_seed_def encoding_iris_def encoding_wine_def expm_def)
qed

theorem encoding_zero_vector_witness:
  "encoding_seed [0, 0, 0, 0] = Inr q0
    \<and> encoding_iris [0, 0, 0, 0] = Inr (mat_vec H q0)
    \<and> encoding_wine [0, 0, 0, 0] = Inr q0"
  using encoding_zero_vector [of 4] by (simp add: numeral_eq_Suc)

text \<open>
  C7: \<open>gm8\<close> is the diagonal matrix with entries \<open>1/\<surd>3\<close>, \<open>1/\<surd>3\<close>, \<open>-2/\<surd>3\<close>, and \<open>H\<close> applied
  to \<open>q0 = (1, 0, 0)\<close> is \<open>(1/\<surd>3) (1, 1, 1)\<close> (with global phase 1).
\<close>

theorem gm8_and_hadamard_q0:
  "q0 = vec3 1 0 0
    \<and> gm8 = diag_mat (vec3 (complex_of_real (1 / sqrt 3)) (complex_of_real (1 / sqrt 3))
          (complex_of_real (- 2 / sqrt 3)))
    \<and> mat_vec H q0 = vec3 (complex_of_real (1 / sqrt 3)) (complex_of_real (1 / sqrt 3))
          (complex_of_real (1 / sqrt 3))"
  by (simp only: q0_def [symmetric] gm8_explicit [symmetric] H_q0 [symmetric] simp_thms)

text \<open>
  C8: the eight generators are Hermitian with trace zero, \<open>H\<close> is unitary, \<open>LZZ2\<close> is
  diagonal, and the exponential of \<open>\<i> LZZ2\<close> is unitary.
\<close>

theorem constants_wellformed:
  "hermitian gm1 \<and> trace gm1 = 0 \<and> hermitian gm2 \<and> trace gm2 = 0
    \<and> hermitian gm3 \<and> trace gm3 = 0 \<and> hermitian gm4 \<and> trace gm4 = 0
    \<and> hermitian gm5 \<and> trace gm5 = 0 \<and> hermitian gm6 \<and> trace gm6 = 0
    \<and> hermitian gm7 \<and> trace gm7 = 0 \<and> hermitian gm8 \<and> trace gm8 = 0
    \<and> generators = [gm1, gm2, gm3, gm4, gm5, gm6, gm7, gm8]
    \<and> unitary H \<and> diagonal LZZ2 \<and> unitary (expm (cmul \<i> LZZ2))"
  by (simp add: hermitian_gm trace_gm unitary_H diagonal_LZZ2 unitary_entangle generators_def)

text \<open>
  C9: on an input of fewer than four components \<open>encoding\<close> returns no state; the read of
  \<open>vector[i]\<close> past the end raises \<open>IndexError\<close>.
\<close>

theorem encoding_short_input_fails:
  assumes "length v < 4"
  shows "encoding_seed v = Inl IndexError \<and> encoding_iris v = Inl IndexError
    \<and> encoding_wine v = Inl IndexError"
proof -
  have "encoding_loop off v [0..<4] 0 = Inl IndexError" for off
  proof (rule encoding_loop_short)
    show "\<exists>i\<in>set [0..<4]. \<not> i < length v"
      using assms by (intro bexI [of _ 3]) simp_all
  qed
  then show ?thesis
    by (simp add: encoding_seed_def encoding_iris_def encoding_wine_def)
qed

theorem encoding_short_input_fails_witness:
  "encoding_seed [1, 2, 3] = Inl IndexError \<and> encoding_iris [1, 2, 3] = Inl IndexError
    \<and> encoding_wine [1, 2, 3] = Inl IndexError"
  using encoding_short_input_fails [of "[1, 2, 3]"] by simp

text \<open>
  C1: in the two-qutrit Seed notebook, \<open>kernel(x, x)\<close> is 1 for every \<open>x\<close> with the eight
  expected components (any \<open>x\<close> of at least eight components), and \<open>kernel_matrix(A, A)\<close> of
  such rows is returned with 1 at every diagonal position.
\<close>

theorem kernel_self_is_one:
  assumes "8 \<le> length x" and "\<forall>a\<in>set A. 8 \<le> length a"
  shows "kernel_seed x x = Inr 1
    \<and> (\<exists>M. kernel_matrix kernel_seed A A = Inr M \<and> length M = length A
          \<and> (\<forall>i<length A. M ! i ! i = 1))"
proof
  show "kernel_seed x x = Inr 1"
    using assms(1) by (rule kernel_seed_self)
  have "\<exists>r. kernel_seed a b = Inr r" if "a \<in> set A" "b \<in> set A" for a b
    using that assms(2) by (intro kernel_seed_defined) auto
  from kernel_matrix_entries [of A A kernel_seed, OF this]
  obtain M where M: "kernel_matrix kernel_seed A A = Inr M" "length M = length A"
    "\<forall>i<length A. length (M ! i) = length A
        \<and> (\<forall>j<length A. kernel_seed (A ! i) (A ! j) = Inr (M ! i ! j))"
    by blast
  have "M ! i ! i = 1" if "i < length A" for i
  proof -
    have "kernel_seed (A ! i) (A ! i) = Inr 1"
      using that assms(2) by (intro kernel_seed_self) auto
    then show ?thesis
      using M(3) that by auto
  qed
  with M(1,2) show "\<exists>M. kernel_matrix kernel_seed A A = Inr M \<and> length M = length A
      \<and> (\<forall>i<length A. M ! i ! i = 1)"
    by blast
qed

theorem kernel_self_is_one_witness:
  "kernel_seed [1, 2, 3, 4, 5, 6, 7, 8] [1, 2, 3, 4, 5, 6, 7, 8] = Inr 1
    \<and> (\<exists>M. kernel_matrix kernel_seed [[1, 2, 3, 4, 5, 6, 7, 8], [0, 0, 1, 0, 0, 0, 0, 0]]
              [[1, 2, 3, 4, 5, 6, 7, 8], [0, 0, 1, 0, 0, 0, 0, 0]] = Inr M
          \<and> length M = 2 \<and> M ! 0 ! 0 = 1 \<and> M ! 1 ! 1 = 1)"
  using kernel_self_is_one [of "[1, 2, 3, 4, 5, 6, 7, 8]"
      "[[1, 2, 3, 4, 5, 6, 7, 8], [0, 0, 1, 0, 0, 0, 0, 0]]"]
  by (auto simp add: All_less_Suc numeral_2_eq_2)

text \<open>
  C3: each notebook's kernel returns the same value for \<open>(x1, x2)\<close> and \<open>(x2, x1)\<close> when
  both vectors have the components the notebook slices: eight for the Seed and Glass
  kernels, four for the Iris kernel, twelve for the Wine kernel.
\<close>

theorem kernel_symmetric:
  "(8 \<le> length x1 \<and> 8 \<le> length x2
      \<longrightarrow> (\<exists>r. kernel_seed x1 x2 = Inr r \<and> kernel_seed x2 x1 = Inr r))
    \<and> (8 \<le> length x1 \<and> 8 \<le> length x2
      \<longrightarrow> (\<exists>r. kernel_glass x1 x2 = Inr r \<and> kernel_glass x2 x1 = Inr r))
    \<and> (4 \<le> length x1 \<and> 4 \<le> length x2
      \<longrightarrow> (\<exists>r. kernel_iris x1 x2 = Inr r \<and> kernel_iris x2 x1 = Inr r))
    \<and> (12 \<le> length x1 \<and> 12 \<le> length x2
      \<longrightarrow> (\<exists>r. kernel_wine x1 x2 = Inr r \<and> kernel_wine x2 x1 = Inr r))"
proof (intro conjI impI)
  assume "8 \<le> length x1 \<and> 8 \<le> length x2"
  then have len: "4 \<le> length (take 4 x1)" "4 \<le> length (drop 4 x1)"
    "4 \<le> length (take 4 x2)" "4 \<le> length (drop 4 x2)"
    by auto
  show "\<exists>r. kernel_seed x1 x2 = Inr r \<and> kernel_seed x2 x1 = Inr r"
    unfolding kernel_seed_def
    using encoding_seed_unit by (intro entangled_kernel_symmetric_value len) blast
  show "\<exists>r. kernel_glass x1 x2 = Inr r \<and> kernel_glass x2 x1 = Inr r"
    unfolding kernel_glass_def
    using encoding_iris_unit by (intro entangled_kernel_symmetric_value len) blast
next
  assume "4 \<le> length x1 \<and> 4 \<le> length x2"
  then show "\<exists>r. kernel_iris x1 x2 = Inr r \<and> kernel_iris x2 x1 = Inr r"
    unfolding kernel_iris_def
    using encoding_iris_unit by (intro entangled_kernel_symmetric_value) blast+
next
  assume "12 \<le> length x1 \<and> 12 \<le> length x2"
  then show "\<exists>r. kernel_wine x1 x2 = Inr r \<and> kernel_wine x2 x1 = Inr r"
    by (intro kernel_wine_symmetric_value) simp_all
qed

theorem kernel_symmetric_witness:
  "(\<exists>r. kernel_seed [1, 2, 3, 4, 5, 6, 7, 8, 9, 10, 11, 12] [0, 0, 1, 0, 0, 0, 0, 1, 0, 0, 0, 0] = Inr r
        \<and> kernel_seed [0, 0, 1, 0, 0, 0, 0, 1, 0, 0, 0, 0] [1, 2, 3, 4, 5, 6, 7, 8, 9, 10, 11, 12] = Inr r)
    \<and> (\<exists>r. kernel_glass [1, 2, 3, 4, 5, 6, 7, 8, 9, 10, 11, 12] [0, 0, 1, 0, 0, 0, 0, 1, 0, 0, 0, 0] = Inr r
        \<and> kernel_glass [0, 0, 1, 0, 0, 0, 0, 1, 0, 0, 0, 0] [1, 2, 3, 4, 5, 6, 7, 8, 9, 10, 11, 12] = Inr r)
    \<and> (\<exists>r. kernel_iris [1, 2, 3, 4, 5, 6, 7, 8, 9, 10, 11, 12] [0, 0, 1, 0, 0, 0, 0, 1, 0, 0, 0, 0] = Inr r
        \<and> kernel_iris [0, 0, 1, 0, 0, 0, 0, 1, 0, 0, 0, 0] [1, 2, 3, 4, 5, 6, 7, 8, 9, 10, 11, 12] = Inr r)
    \<and> (\<exists>r. kernel_wine [1, 2, 3, 4, 5, 6, 7, 8, 9, 10, 11, 12] [0, 0, 1, 0, 0, 0, 0, 1, 0, 0, 0, 0] = Inr r
        \<and> kernel_wine [0, 0, 1, 0, 0, 0, 0, 1, 0, 0, 0, 0] [1, 2, 3, 4, 5, 6, 7, 8, 9, 10, 11, 12] = Inr r)"
  using kernel_symmetric [of "[1, 2, 3, 4, 5, 6, 7, 8, 9, 10, 11, 12]"
      "[0, 0, 1, 0, 0, 0, 0, 1, 0, 0, 0, 0]"]
  by simp

text \<open>
  C2 (failing input): the Seed kernel returns \<open>cos 2\<close>, a negative number, on the pair
  \<open>[0, 0, 1, 0, 0, 0, 0, 0]\<close>, \<open>[0, 0, 0, 0, 0, 0, 0, 0]\<close>: the inner product there is
  \<open>exp (-\<i>)\<close>, and the real part of its square is not its squared magnitude.
\<close>

theorem kernel_seed_negative_value:
  "kernel_seed [0, 0, 1, 0, 0, 0, 0, 0] [0, 0, 0, 0, 0, 0, 0, 0] = Inr (cos 2)
    \<and> cos 2 < (0::real)"
proof -
  have "kernel_seed [0, 0, 1, 0, 0, 0, 0, 0] [0, 0, 0, 0, 0, 0, 0, 0]
      = Inr (Re ((cnj (exp (\<i> * complex_of_real 1)))\<^sup>2))"
    unfolding kernel_seed_def
    by (subst entangled_kernel_value [where ?p1.0 = "\<lambda>i. exp \<i> * q0 i" and ?p2.0 = q0
          and ?r1.0 = q0 and ?r2.0 = q0])
      (simp_all add: encoding_seed_gm3 encoding_seed_zero4 cdot_phase_q0)
  also have "Re ((cnj (exp (\<i> * complex_of_real 1)))\<^sup>2) = cos 2"
    using Re_exp_i_squared [of 1] by (simp only: Re_power2_cnj) simp
  finally show ?thesis
    by simp
qed

text \<open>
  C4 (failing input): the Wine kernel builds the second and third chunk of its second joint
  state from \<open>x1\<close>.  On \<open>x1 = 0\<close> and \<open>x2 = [0, 0, 0, 0, 0, 0, 0, 1, 0, 0, 0, 0]\<close> it returns
  1, while the kernel of the two joint states, each built from its own argument, is
  \<open>cos (2 / \<surd>3) < 1\<close>.
\<close>

theorem kernel_wine_reuses_first_argument:
  "kernel_wine [0, 0, 0, 0, 0, 0, 0, 0, 0, 0, 0, 0] [0, 0, 0, 0, 0, 0, 0, 1, 0, 0, 0, 0] = Inr 1
    \<and> kernel_spec joint_state_wine_spec
          [0, 0, 0, 0, 0, 0, 0, 0, 0, 0, 0, 0] [0, 0, 0, 0, 0, 0, 0, 1, 0, 0, 0, 0]
        = Inr (cos (2 / sqrt 3))
    \<and> cos (2 / sqrt 3) < 1"
proof (intro conjI)
  show "kernel_wine [0, 0, 0, 0, 0, 0, 0, 0, 0, 0, 0, 0] [0, 0, 0, 0, 0, 0, 0, 1, 0, 0, 0, 0] = Inr 1"
    by (subst kernel_wine_value [where ?a1.0 = q0 and ?a2.0 = q0 and ?a3.0 = q0 and ?b1.0 = q0])
      (simp_all add: encoding_wine_zero4)
  have "kernel_spec joint_state_wine_spec
      [0, 0, 0, 0, 0, 0, 0, 0, 0, 0, 0, 0] [0, 0, 0, 0, 0, 0, 0, 1, 0, 0, 0, 0]
      = Inr (Re ((exp (\<i> * complex_of_real (1 / sqrt 3)))\<^sup>2))"
    by (simp add: kernel_spec_def joint_state_wine_spec_def encoding_wine_zero4
        encoding_wine_gm8 cdot_kron_vec cdot_phase_q0)
  then show "kernel_spec joint_state_wine_spec
      [0, 0, 0, 0, 0, 0, 0, 0, 0, 0, 0, 0] [0, 0, 0, 0, 0, 0, 0, 1, 0, 0, 0, 0]
      = Inr (cos (2 / sqrt 3))"
    by (simp only: Re_exp_i_squared) simp
  show "cos (2 / sqrt 3) < 1"
    by (rule cos_two_over_sqrt3)
qed

text \<open>
  C10: the Iris kernel encodes the whole of each argument into both qutrits: for inputs of
  (at least) four features its value is the real part of the squared inner product of
  \<open>E (enc x1 \<otimes> enc x1)\<close> and \<open>E (enc x2 \<otimes> enc x2)\<close>, where \<open>E\<close> is the exponential of \<open>\<i> LZZ2\<close>.
\<close>

theorem kernel_iris_duplicates_features:
  assumes "4 \<le> length x1" "4 \<le> length x2"
  shows "\<exists>\<psi>1 \<psi>2. encoding_iris x1 = Inr \<psi>1 \<and> encoding_iris x2 = Inr \<psi>2
    \<and> kernel_iris x1 x2
        = Inr (Re ((cdot (mat_vec (expm (cmul \<i> LZZ2)) (kron_vec \<psi>1 \<psi>1))
                        (mat_vec (expm (cmul \<i> LZZ2)) (kron_vec \<psi>2 \<psi>2)))\<^sup>2))"
proof -
  obtain \<psi>1 \<psi>2 where e: "encoding_iris x1 = Inr \<psi>1" "encoding_iris x2 = Inr \<psi>2"
    using encoding_iris_unit [OF assms(1)] encoding_iris_unit [OF assms(2)] by blast
  then have "kernel_iris x1 x2
        = Inr (Re ((cdot (mat_vec (expm (cmul \<i> LZZ2)) (kron_vec \<psi>1 \<psi>1))
                        (mat_vec (expm (cmul \<i> LZZ2)) (kron_vec \<psi>2 \<psi>2)))\<^sup>2))"
    by (simp add: kernel_iris_def entangled_kernel_def Let_def)
  with e show ?thesis
    by blast
qed

theorem kernel_iris_duplicates_features_witness:
  "\<exists>\<psi>1 \<psi>2. encoding_iris [1, 2, 3, 4] = Inr \<psi>1 \<and> encoding_iris [0, 0, 1, 0] = Inr \<psi>2
    \<and> kernel_iris [1, 2, 3, 4] [0, 0, 1, 0]
        = Inr (Re ((cdot (mat_vec (expm (cmul \<i> LZZ2)) (kron_vec \<psi>1 \<psi>1))
                        (mat_vec (expm (cmul \<i> LZZ2)) (kron_vec \<psi>2 \<psi>2)))\<^sup>2))"
  using kernel_iris_duplicates_features [of "[1, 2, 3, 4]" "[0, 0, 1, 0]"] by simp

end
